theory Spec2Isabelle
  imports Main "HOL-Library.AList" "HOL-Library.Sublist"
begin

section \<open>Text\<close>

text \<open>
  A Python \<open>str\<close> is a sequence of Unicode code points. A code point is a natural number;
  \<open>asc\<close> turns an ASCII literal into such a sequence. The single quote is code point 39,
  the double quote 34, the backslash 92, the comma 44, the line feed 10.
\<close>

type_synonym codepoint = nat
type_synonym ustring = "codepoint list"

definition asc :: "string \<Rightarrow> ustring" where
  "asc s = map of_char s"

section \<open>The regular expression engine\<close>

text \<open>
  The script's pattern uses four constructs of Python's \<open>re\<close>: a literal character, the
  greedy \<open>\s*\<close>, the character class \<open>[^']\<close> and the capturing group \<open>([^']+)\<close> with a greedy
  \<open>+\<close>. A pattern is the sequence of its items.

  \<open>is_space\<close> is \<open>\s\<close> for a \<open>str\<close> pattern: the code points for which \<open>str.isspace\<close> holds.
\<close>

datatype cclass = Whitespace | AnyBut codepoint

definition is_space :: "codepoint \<Rightarrow> bool" where
  "is_space c = (c \<in> set [9, 10, 11, 12, 13, 28, 29, 30, 31, 32, 133, 160, 5760,
      8192, 8193, 8194, 8195, 8196, 8197, 8198, 8199, 8200, 8201, 8202,
      8232, 8233, 8239, 8287, 12288])"

fun in_class :: "cclass \<Rightarrow> codepoint \<Rightarrow> bool" where
  "in_class Whitespace c = is_space c"
| "in_class (AnyBut x) c = (c \<noteq> x)"

datatype item = Lit codepoint | Star cclass | Group cclass

text \<open>
  \<open>match p s\<close> matches the pattern \<open>p\<close> at the start of \<open>s\<close>, as the backtracking engine
  does: a greedy quantifier takes as many characters as it can and gives them back one by
  one while the rest of the pattern fails. The result is the captured groups, in order, and
  the text after the match. A match of a pattern that starts with a group has that group
  first in its result, so the case of a result without groups does not arise.
\<close>

fun match :: "item list \<Rightarrow> ustring \<Rightarrow> (ustring list \<times> ustring) option" where
  "match [] s = Some ([], s)"
| "match (Lit c # r) [] = None"
| "match (Lit c # r) (d # ds) = (if d = c then match r ds else None)"
| "match (Star cl # r) [] = match r []"
| "match (Star cl # r) (d # ds) =
     (if in_class cl d
      then (case match (Star cl # r) ds of
              Some m \<Rightarrow> Some m
            | None \<Rightarrow> match r (d # ds))
      else match r (d # ds))"
| "match (Group cl # r) [] = None"
| "match (Group cl # r) (d # ds) =
     (if in_class cl d
      then (case match (Group cl # r) ds of
              Some (g # gs, e) \<Rightarrow> Some ((d # g) # gs, e)
            | Some ([], e) \<Rightarrow> None
            | None \<Rightarrow> (case match r ds of
                        Some (gs, e) \<Rightarrow> Some ([d] # gs, e)
                      | None \<Rightarrow> None))
      else None)"

text \<open>
  \<open>re.findall\<close>: the matches from left to right, without overlap. After a match the scan goes
  on where the match ended; where the pattern does not match, one character further. A match
  of the empty string also moves one character further; the script's pattern starts with a
  literal and never matches the empty string.
\<close>

function findall :: "item list \<Rightarrow> ustring \<Rightarrow> ustring list list" where
  "findall p s =
     (case match p s of
        Some (gs, e) \<Rightarrow>
          if length e < length s then gs # findall p e
          else gs # (case s of [] \<Rightarrow> [] | c # cs \<Rightarrow> findall p cs)
      | None \<Rightarrow> (case s of [] \<Rightarrow> [] | c # cs \<Rightarrow> findall p cs))"
  by pat_completeness auto
termination
  by (relation "measure (\<lambda>(p, s). length s)") auto

text \<open>
  The number of groups of a pattern. With three groups in the pattern, \<open>re.findall\<close> returns
  3-tuples of the groups.
\<close>

fun groups :: "item list \<Rightarrow> nat" where
  "groups [] = 0"
| "groups (Lit c # r) = groups r"
| "groups (Star cl # r) = groups r"
| "groups (Group cl # r) = Suc (groups r)"

definition findall3 :: "item list \<Rightarrow> ustring \<Rightarrow> (ustring \<times> ustring \<times> ustring) list" where
  "findall3 p s = map (\<lambda>gs. (gs ! 0, gs ! 1, gs ! 2)) (findall p s)"

definition lits :: "string \<Rightarrow> item list" where
  "lits s = map Lit (asc s)"

text \<open>
  \<^verbatim>\<open>pattern = r"\{\s*key:\s*'([^']+)',\s*name:\s*'([^']+)',\s*description:\s*'([^']+)',"\<close>
\<close>

definition pattern :: "item list" where
  "pattern =
     lits ''{'' @ [Star Whitespace] @ lits ''key:'' @
       [Star Whitespace, Lit 39, Group (AnyBut 39), Lit 39] @ lits '','' @
     [Star Whitespace] @ lits ''name:'' @
       [Star Whitespace, Lit 39, Group (AnyBut 39), Lit 39] @ lits '','' @
     [Star Whitespace] @ lits ''description:'' @
       [Star Whitespace, Lit 39, Group (AnyBut 39), Lit 39] @ lits '',''"

section \<open>Standard output and the template\<close>

text \<open>
  The state of the script after loading: the text written to standard output so far and the
  dictionary \<open>translation_data\<close>. A Python \<open>dict\<close> keeps its keys in insertion order, and an
  assignment to a key already present replaces the value where the key stands: an association
  list under \<open>AList.update\<close>.
\<close>

record pstate =
  stdout :: ustring
  translation_data :: "(ustring \<times> ustring) list"

definition print :: "ustring \<Rightarrow> pstate \<Rightarrow> pstate" where
  "print s st = st\<lparr>stdout := stdout st @ s @ [10]\<rparr>"

definition prints :: "ustring list \<Rightarrow> pstate \<Rightarrow> pstate" where
  "prints ls st = foldl (\<lambda>st l. print l st) st ls"

text \<open>\<open>str\<close> of a non-negative \<open>int\<close>: its decimal digits.\<close>

fun str_nat :: "nat \<Rightarrow> ustring" where
  "str_nat n = (if n < 10 then [48 + n] else str_nat (n div 10) @ [48 + n mod 10])"

definition rule80 :: ustring where
  "rule80 = replicate 80 61"

text \<open>Lines 21 to 36 of the script: the count line and the prompt.\<close>

definition count_line :: "nat \<Rightarrow> ustring" where
  "count_line n = [25214, 21040] @ asc '' '' @ str_nat n @ asc '' '' @
     [20010, 37197, 32622, 39033, 10]"

definition intro :: "nat \<Rightarrow> ustring list" where
  "intro n =
    [count_line n,
     rule80,
     asc ''AI '' @ [32763, 35793, 25552, 31034, 35789] @ asc '':'',
     rule80,
     [],
     [35831, 23558, 20197, 19979] @ asc '' clang-format '' @
       [37197, 32622, 39033, 20174, 20013, 25991, 32763, 35793, 20026, 33521, 25991] @
       asc '' JSON '' @ [26684, 24335, 12290],
     [20445, 25345, 19987, 19994, 26415, 35821, 20934, 30830, 24615] @ asc '','' @
       [21442, 32771] @ asc '' clang-format '' @ [23448, 26041, 25991, 26723, 12290],
     [],
     [36755, 20986, 26684, 24335, 31034, 20363] @ asc '':'',
     asc ''{'',
     asc ''  '' @ [34] @ asc ''clangFormat.option.BasedOnStyle.name'' @ [34] @ asc '': '' @
       [34] @ asc ''Based On Style'' @ [34] @ asc '','',
     asc ''  '' @ [34] @ asc ''clangFormat.option.BasedOnStyle.description'' @ [34] @
       asc '': '' @ [34] @ asc ''The base coding style to inherit from...'' @ [34],
     asc ''}'',
     [],
     [24453, 32763, 35793, 20869, 23481] @ asc '':'',
     []]"

text \<open>The two keys of an entry, lines 46 and 47.\<close>

definition name_key :: "ustring \<Rightarrow> ustring" where
  "name_key key = asc ''clangFormat.option.'' @ key @ asc ''.name''"

definition description_key :: "ustring \<Rightarrow> ustring" where
  "description_key key = asc ''clangFormat.option.'' @ key @ asc ''.description''"

text \<open>The body of the loop, lines 41 to 47, and the loop over the matches.\<close>

definition body :: "ustring \<Rightarrow> ustring \<Rightarrow> ustring \<Rightarrow> pstate \<Rightarrow> pstate" where
  "body key name description st =
     (let st = print ([37197, 32622, 39033] @ asc '': '' @ key) st;
          st = print (asc ''  '' @ [20013, 25991, 21517, 31216] @ asc '': '' @ name) st;
          st = print (asc ''  '' @ [20013, 25991, 25551, 36848] @ asc '': '' @ description) st;
          st = print [] st;
          st = st\<lparr>translation_data := AList.update (name_key key) [] (translation_data st)\<rparr>;
          st = st\<lparr>translation_data :=
                   AList.update (description_key key) [] (translation_data st)\<rparr>
      in st)"

fun loop :: "(ustring \<times> ustring \<times> ustring) list \<Rightarrow> pstate \<Rightarrow> pstate" where
  "loop [] st = st"
| "loop ((key, name, description) # ms) st = loop ms (body key name description st)"

text \<open>Lines 50 to 52.\<close>

definition outro :: "ustring list" where
  "outro =
    [[10] @ rule80,
     asc ''JSON '' @ [27169, 26495] @ asc '' ('' @
       [22635, 20889, 33521, 25991, 32763, 35793] @ asc ''):'',
     rule80]"

text \<open>
  \<open>json.dumps(d, ensure_ascii=False, indent=2)\<close> on a dictionary from \<open>str\<close> to \<open>str\<close>, after the
  documentation and the source of Python's \<open>json.encoder\<close>: a string is written between double
  quotes with the double quote, the backslash and the control characters below 32 escaped, and
  every other character as it is; the members are written one a line, indented by two spaces.
\<close>

definition hex_digit :: "nat \<Rightarrow> codepoint" where
  "hex_digit n = (if n < 10 then 48 + n else 87 + n)"

definition json_escape :: "codepoint \<Rightarrow> ustring" where
  "json_escape c =
     (if c = 34 then [92, 34]
      else if c = 92 then [92, 92]
      else if c = 10 then [92, 110]
      else if c = 13 then [92, 114]
      else if c = 9 then [92, 116]
      else if c = 8 then [92, 98]
      else if c = 12 then [92, 102]
      else if c < 32 then [92, 117, 48, 48, hex_digit (c div 16), hex_digit (c mod 16)]
      else [c])"

definition encode_basestring :: "ustring \<Rightarrow> ustring" where
  "encode_basestring s = [34] @ concat (map json_escape s) @ [34]"

fun join :: "ustring \<Rightarrow> ustring list \<Rightarrow> ustring" where
  "join sep [] = []"
| "join sep [x] = x"
| "join sep (x # y # ys) = x @ sep @ join sep (y # ys)"

definition json_dumps :: "(ustring \<times> ustring) list \<Rightarrow> ustring" where
  "json_dumps d =
     (if d = [] then asc ''{}''
      else asc ''{'' @ [10] @ asc ''  '' @
           join (asc '','' @ [10] @ asc ''  '')
             (map (\<lambda>(k, v). encode_basestring k @ asc '': '' @ encode_basestring v) d) @
           [10] @ asc ''}'')"

text \<open>The script from line 18 on, run on the text of the file.\<close>

definition script :: "ustring \<Rightarrow> pstate" where
  "script content =
     (let matches = findall3 pattern content;
          st = \<lparr>stdout = [], translation_data = []\<rparr>;
          st = prints (intro (length matches)) st;
          st = loop matches st;
          st = prints outro st
      in print (json_dumps (translation_data st)) st)"

section \<open>Loading the file\<close>


datatype file_entry = Missing | Unreadable | Stored string

record world =
  argv :: "string list"
  environ :: "(string \<times> string) list"
  files :: "string \<Rightarrow> file_entry"

definition cont :: "char \<Rightarrow> bool" where
  "cont c = (128 \<le> (of_char c :: nat) \<and> (of_char c :: nat) \<le> 191)"

fun utf8_decode :: "string \<Rightarrow> ustring option" where
  "utf8_decode [] = Some []"
| "utf8_decode (c # cs) =
    (let b = (of_char c :: nat) in
     if b < 128 then map_option ((#) b) (utf8_decode cs)
     else if 194 \<le> b \<and> b \<le> 223 then
       (case cs of
          c1 # r \<Rightarrow>
            if cont c1
            then map_option ((#) ((b - 192) * 64 + (of_char c1 - 128))) (utf8_decode r)
            else None
        | _ \<Rightarrow> None)
     else if 224 \<le> b \<and> b \<le> 239 then
       (case cs of
          c1 # c2 # r \<Rightarrow>
            (let cp = (b - 224) * 4096 + (of_char c1 - 128) * 64 + (of_char c2 - 128) in
             if cont c1 \<and> cont c2 \<and> 2048 \<le> cp \<and> \<not> (55296 \<le> cp \<and> cp \<le> 57343)
             then map_option ((#) cp) (utf8_decode r)
             else None)
        | _ \<Rightarrow> None)
     else if 240 \<le> b \<and> b \<le> 244 then
       (case cs of
          c1 # c2 # c3 # r \<Rightarrow>
            (let cp = (b - 240) * 262144 + (of_char c1 - 128) * 4096 +
                      (of_char c2 - 128) * 64 + (of_char c3 - 128) in
             if cont c1 \<and> cont c2 \<and> cont c3 \<and> 65536 \<le> cp \<and> cp \<le> 1114111
             then map_option ((#) cp) (utf8_decode r)
             else None)
        | _ \<Rightarrow> None)
     else None)"



definition input_path :: string where
  "input_path = ''src/visual-editor/clang-format/data/clang-format-options-database.ts''"



section \<open>Source files made of entries\<close>

text \<open>
  The shape of the input the script is written for: a file is some leading text followed by
  entries, each entry an opening brace and the three labelled, single-quoted fields \<open>key\<close>,
  \<open>name\<close> and \<open>description\<close>, every field closed by a quote and a comma, with spacing
  \<open>sp1\<close> to \<open>sp6\<close> where the pattern has \<open>\s*\<close>; \<open>trailing\<close> is the text between the comma that
  closes the description and the next entry or the end of the file.
\<close>

record source_entry =
  sp1 :: ustring
  sp2 :: ustring
  ekey :: ustring
  sp3 :: ustring
  sp4 :: ustring
  ename :: ustring
  sp5 :: ustring
  sp6 :: ustring
  edescription :: ustring
  trailing :: ustring

text \<open>The entry up to the quote that closes the description, and with the comma after it.\<close>

definition entry_open :: "source_entry \<Rightarrow> ustring" where
  "entry_open e =
     asc ''{'' @ sp1 e @ asc ''key:'' @ sp2 e @ [39] @ ekey e @ [39] @ asc '','' @
     sp3 e @ asc ''name:'' @ sp4 e @ [39] @ ename e @ [39] @ asc '','' @
     sp5 e @ asc ''description:'' @ sp6 e @ [39] @ edescription e @ [39]"

definition entry_text :: "source_entry \<Rightarrow> ustring" where
  "entry_text e = entry_open e @ asc '',''"

definition file_text :: "ustring \<Rightarrow> source_entry list \<Rightarrow> ustring" where
  "file_text pre es = pre @ concat (map (\<lambda>e. entry_text e @ trailing e) es)"

definition spaced :: "source_entry \<Rightarrow> bool" where
  "spaced e = list_all (list_all is_space) [sp1 e, sp2 e, sp3 e, sp4 e, sp5 e, sp6 e]"

definition quote_free :: "ustring \<Rightarrow> bool" where
  "quote_free f = (39 \<notin> set f)"

definition well_formed :: "source_entry \<Rightarrow> bool" where
  "well_formed e =
     (spaced e \<and> ekey e \<noteq> [] \<and> quote_free (ekey e) \<and> ename e \<noteq> [] \<and> quote_free (ename e) \<and>
      edescription e \<noteq> [] \<and> quote_free (edescription e))"

text \<open>
  A text opens an entry when it starts with a brace, optional whitespace and the label
  \<open>key:\<close>. The text between the entries of a file opens no entry at any of its positions.
\<close>

definition opens_entry :: "ustring \<Rightarrow> bool" where
  "opens_entry s =
     (case s of [] \<Rightarrow> False | c # t \<Rightarrow> c = 123 \<and> prefix (asc ''key:'') (dropWhile is_space t))"

fun no_entry_start :: "ustring \<Rightarrow> bool" where
  "no_entry_start [] = True"
| "no_entry_start (c # cs) = (\<not> opens_entry (c # cs) \<and> no_entry_start cs)"

definition entry_file :: "ustring \<Rightarrow> source_entry list \<Rightarrow> bool" where
  "entry_file pre es =
     (no_entry_start pre \<and> list_all (\<lambda>e. well_formed e \<and> no_entry_start (trailing e)) es)"

text \<open>The identifiers of a list of matches, and the keys the template gets for an identifier.\<close>

definition identifiers :: "(ustring \<times> ustring \<times> ustring) list \<Rightarrow> ustring list" where
  "identifiers ms = map fst ms"

definition key_pair :: "ustring \<Rightarrow> ustring list" where
  "key_pair k = [name_key k, description_key k]"

text \<open>The elements of a list in the order of their first occurrence.\<close>

definition first_occurrences :: "'a list \<Rightarrow> 'a list" where
  "first_occurrences xs = rev (remdups (rev xs))"

text \<open>What \<open>prints\<close> adds to standard output: each line and its line feed.\<close>

definition lines_text :: "ustring list \<Rightarrow> ustring" where
  "lines_text ls = concat (map (\<lambda>l. l @ [10]) ls)"

text \<open>What the body of the loop writes for a match, and the dictionary the loop builds.\<close>

definition report_block :: "ustring \<times> ustring \<times> ustring \<Rightarrow> ustring" where
  "report_block m =
     (case m of (key, name, description) \<Rightarrow>
        lines_text
          [[37197, 32622, 39033] @ asc '': '' @ key,
           asc ''  '' @ [20013, 25991, 21517, 31216] @ asc '': '' @ name,
           asc ''  '' @ [20013, 25991, 25551, 36848] @ asc '': '' @ description,
           []])"

definition template :: "(ustring \<times> ustring \<times> ustring) list \<Rightarrow> (ustring \<times> ustring) list" where
  "template ms = translation_data (loop ms \<lparr>stdout = [], translation_data = []\<rparr>)"

text \<open>A world that holds the input file and nothing else.\<close>

definition world_of :: "file_entry \<Rightarrow> world" where
  "world_of f =
     \<lparr>argv = [], environ = [], files = (\<lambda>p. if p = input_path then f else Missing)\<rparr>"

text \<open>What the pattern extracts from an entry.\<close>

definition extracted :: "source_entry \<Rightarrow> ustring \<times> ustring \<times> ustring" where
  "extracted e = (ekey e, ename e, edescription e)"


text \<open>
  An entry written with single spaces, as in \<^verbatim>\<open>{ key: 'k', name: 'n', description: 'd', },\<close>.
\<close>

definition entry :: "ustring \<Rightarrow> ustring \<Rightarrow> ustring \<Rightarrow> source_entry" where
  "entry k n d =
     \<lparr>sp1 = asc '' '', sp2 = asc '' '', ekey = k, sp3 = asc '' '', sp4 = asc '' '', ename = n,
      sp5 = asc '' '', sp6 = asc '' '', edescription = d, trailing = asc '' },''\<rparr>"

section \<open>The pattern, deterministically\<close>

declare findall.simps [simp del]

lemma match_Star_Lit:
  "\<not> in_class cl c \<Longrightarrow>
     match (Star cl # Lit c # r) s = match (Lit c # r) (dropWhile (in_class cl) s)"
proof (induction s)
  case Nil
  then show ?case by simp
next
  case (Cons d ds)
  show ?case
  proof (cases "in_class cl d")
    case True
    with Cons.prems have neq: "d \<noteq> c" by auto
    show ?thesis
    proof (cases "match (Lit c # r) (dropWhile (in_class cl) ds)")
      case None
      with True neq Cons show ?thesis by simp
    next
      case (Some m)
      with True Cons show ?thesis by simp
    qed
  next
    case False
    then show ?thesis by simp
  qed
qed

lemma match_Group_nonempty:
  "match (Group cl # r) s = Some (gs, e) \<Longrightarrow> gs \<noteq> []"
proof (induction s arbitrary: gs e)
  case Nil
  then show ?case by simp
next
  case (Cons d ds)
  then show ?case
    by (auto split: if_splits option.splits list.splits prod.splits)
qed

lemma match_Group_Lit:
  "\<not> in_class cl c \<Longrightarrow>
     match (Group cl # Lit c # r) s =
       (if takeWhile (in_class cl) s = [] then None
        else map_option (\<lambda>(gs, e). (takeWhile (in_class cl) s # gs, e))
               (match (Lit c # r) (dropWhile (in_class cl) s)))"
proof (induction s)
  case Nil
  then show ?case by simp
next
  case (Cons d ds)
  show ?case
  proof (cases "in_class cl d")
    case False
    then show ?thesis by simp
  next
    case True
    show ?thesis
    proof (cases "takeWhile (in_class cl) ds = []")
      case stop: True
      then have dw: "dropWhile (in_class cl) ds = ds"
        by (cases ds) (auto split: if_splits)
      from stop Cons have "match (Group cl # Lit c # r) ds = None" by simp
      with True stop dw show ?thesis
        by (auto split: option.splits)
    next
      case go: False
      then obtain d' ds' where ds: "ds = d' # ds'" and d': "in_class cl d'"
        by (cases ds) (auto split: if_splits)
      with Cons.prems have "d' \<noteq> c" by auto
      then have fb: "match (Lit c # r) ds = None" by (simp add: ds)
      from go Cons have ih: "match (Group cl # Lit c # r) ds =
          map_option (\<lambda>(gs, e). (takeWhile (in_class cl) ds # gs, e))
            (match (Lit c # r) (dropWhile (in_class cl) ds))" by simp
      show ?thesis
      proof (cases "match (Lit c # r) (dropWhile (in_class cl) ds)")
        case None
        with True ih fb show ?thesis by simp
      next
        case (Some m)
        with True ih show ?thesis by (cases m) simp
      qed
    qed
  qed
qed

lemma match_lits:
  "match (map Lit l @ r) s = (if prefix l s then match r (drop (length l) s) else None)"
proof (induction l arbitrary: s)
  case Nil
  then show ?case by simp
next
  case (Cons c l)
  then show ?case by (cases s) auto
qed

lemma seg_star:
  assumes "list_all (in_class cl) w" and "\<not> in_class cl c"
  shows "match (Star cl # Lit c # r) (w @ c # s) = match r s"
proof -
  from assms have "dropWhile (in_class cl) (w @ c # s) = c # s"
    by (induction w) auto
  with assms(2) show ?thesis by (simp add: match_Star_Lit)
qed

lemma seg_group:
  assumes "list_all (in_class cl) g" and "\<not> in_class cl c"
  shows "match (Group cl # Lit c # r) (g @ c # s) =
           (if g = [] then None else map_option (\<lambda>(gs, e). (g # gs, e)) (match r s))"
proof -
  from assms have "dropWhile (in_class cl) (g @ c # s) = c # s"
    and "takeWhile (in_class cl) (g @ c # s) = g"
    by (induction g) auto
  with assms(2) show ?thesis by (simp add: match_Group_Lit)
qed

lemma not_space_ascii [simp]:
  "\<not> is_space 107" "\<not> is_space 110" "\<not> is_space 100" "\<not> is_space 39" "\<not> is_space 123"
  by (simp_all add: is_space_def)

lemma quote_free_class: "quote_free f \<Longrightarrow> list_all (in_class (AnyBut 39)) f"
  by (induction f) (auto simp: quote_free_def)

lemma spaced_class:
  "spaced e \<Longrightarrow> list_all (in_class Whitespace) (sp1 e) \<and> list_all (in_class Whitespace) (sp2 e) \<and>
     list_all (in_class Whitespace) (sp3 e) \<and> list_all (in_class Whitespace) (sp4 e) \<and>
     list_all (in_class Whitespace) (sp5 e) \<and> list_all (in_class Whitespace) (sp6 e)"
  by (simp add: spaced_def list_all_iff)

text \<open>The pattern on the text of an entry.\<close>

lemma match_entry_open:
  assumes "spaced e" "quote_free (ekey e)" "quote_free (ename e)" "quote_free (edescription e)"
  shows "match pattern (entry_open e @ s) =
     (if ekey e = [] \<or> ename e = [] \<or> edescription e = [] then None
      else case s of [] \<Rightarrow> None
           | c # t \<Rightarrow> if c = 44 then Some ([ekey e, ename e, edescription e], t) else None)"
proof -
  note sp = spaced_class [OF assms(1)]
  note qf = assms(2-4) [THEN quote_free_class]
  show ?thesis
    using sp qf
    by (simp add: pattern_def lits_def asc_def entry_open_def seg_star seg_group
        split: list.splits)
qed

lemma pattern_opening:
  "\<exists>r. pattern = Lit 123 # Star Whitespace # Lit 107 # (map Lit [101, 121, 58] @ r)"
  by (simp add: pattern_def lits_def asc_def)

lemma in_class_Whitespace: "in_class Whitespace = is_space"
  by (simp add: fun_eq_iff)

lemma match_needs_opening: "\<not> opens_entry s \<Longrightarrow> match pattern s = None"
proof (cases s)
  case Nil
  then show ?thesis by (simp add: pattern_def lits_def asc_def)
next
  case (Cons c t)
  assume no: "\<not> opens_entry s"
  from pattern_opening obtain r
    where r: "pattern = Lit 123 # Star Whitespace # Lit 107 # (map Lit [101, 121, 58] @ r)"
    by blast
  show ?thesis
  proof (cases "c = 123")
    case False
    with Cons show ?thesis by (simp add: r)
  next
    case True
    with no Cons have np: "\<not> prefix [107, 101, 121, 58] (dropWhile is_space t)"
      by (simp add: opens_entry_def asc_def)
    have "match pattern s =
        match (Lit 107 # (map Lit [101, 121, 58] @ r)) (dropWhile is_space t)"
      unfolding r Cons True by (simp add: match_Star_Lit in_class_Whitespace)
    also have "\<dots> = match (map Lit [107, 101, 121, 58] @ r) (dropWhile is_space t)"
      by simp
    also have "\<dots> = None"
      using np by (simp only: match_lits if_False)
    finally show ?thesis .
  qed
qed

lemma match_suffix: "match p s = Some (gs, e) \<Longrightarrow> length e \<le> length s"
proof (induction p s arbitrary: gs e rule: match.induct)
  case (5 cl r d ds)
  then show ?case
    by (fastforce split: if_splits option.splits)
next
  case (7 cl r d ds)
  then show ?case
    by (fastforce split: if_splits option.splits list.splits prod.splits)
qed (auto split: if_splits)

lemma match_pattern_shorter:
  assumes "match pattern s = Some (gs, e)"
  shows "length e < length s"
proof -
  from pattern_opening obtain r where r: "pattern = Lit 123 # r" by blast
  from assms have m: "match (Lit 123 # r) s = Some (gs, e)"
    unfolding r .
  then obtain t where "s = 123 # t" and "match r t = Some (gs, e)"
    by (cases s) (auto split: if_splits)
  with match_suffix [of r t gs e] show ?thesis by simp
qed

lemma findall_skip: "match p (c # s) = None \<Longrightarrow> findall p (c # s) = findall p s"
  by (simp add: findall.simps)

lemma findall_Nil: "findall pattern [] = []"
  by (simp add: findall.simps pattern_def lits_def asc_def)

lemma findall_hit:
  "match p s = Some (gs, e) \<Longrightarrow> length e < length s \<Longrightarrow> findall p s = gs # findall p e"
  by (simp add: findall.simps)

lemma opens_entry_append:
  assumes "opens_entry ((c # g) @ s)" and "s = [] \<or> hd s = 123"
  shows "opens_entry (c # g)"
proof -
  let ?k = "[107, 101, 121, 58] :: ustring"
  from assms(1) have c: "c = 123" and p: "prefix ?k (dropWhile is_space (g @ s))"
    by (simp_all add: opens_entry_def asc_def)
  have s0: "\<not> prefix ?k s"
    using assms(2) by (cases s) auto
  have "prefix ?k (dropWhile is_space g)"
  proof (cases "dropWhile is_space g")
    case Nil
    then have "\<forall>x\<in>set g. is_space x"
      by (metis dropWhile_eq_Nil_conv)
    then have "dropWhile is_space (g @ s) = dropWhile is_space s" by simp
    moreover have "dropWhile is_space s = s"
      using assms(2) by (cases s) auto
    ultimately show ?thesis using p s0 by simp
  next
    case (Cons x xs)
    then have "\<exists>y\<in>set g. \<not> is_space y"
      by (metis dropWhile_eq_Nil_conv list.distinct(1))
    then have dw: "dropWhile is_space (g @ s) = dropWhile is_space g @ s"
      by (auto simp: dropWhile_append1)
    from p have "prefix ?k (dropWhile is_space g) \<or>
        (\<exists>us. ?k = dropWhile is_space g @ us \<and> us \<noteq> [] \<and> prefix us s)"
      unfolding dw prefix_append by auto
    then show ?thesis
    proof
      assume "prefix ?k (dropWhile is_space g)"
      then show ?thesis .
    next
      assume "\<exists>us. ?k = dropWhile is_space g @ us \<and> us \<noteq> [] \<and> prefix us s"
      then obtain us where k: "?k = dropWhile is_space g @ us" and ne: "us \<noteq> []"
        and pu: "prefix us s" by blast
      from ne pu have sne: "s \<noteq> []" and "hd us = hd s"
        by (auto simp: prefix_def)
      with assms(2) have "hd us = 123" by simp
      with ne have "123 \<in> set us" by (metis hd_in_set)
      then have "123 \<in> set ?k" by (subst k) simp
      then show ?thesis by simp
    qed
  qed
  with c show ?thesis by (simp add: opens_entry_def asc_def)
qed

lemma findall_gap:
  "no_entry_start g \<Longrightarrow> s = [] \<or> hd s = 123 \<Longrightarrow> findall pattern (g @ s) = findall pattern s"
proof (induction g)
  case Nil
  then show ?case by simp
next
  case (Cons c g)
  from Cons.prems have "\<not> opens_entry ((c # g) @ s)"
    using opens_entry_append by auto
  then have "match pattern (c # (g @ s)) = None"
    by (simp add: match_needs_opening)
  then have "findall pattern ((c # g) @ s) = findall pattern (g @ s)"
    by (simp add: findall_skip)
  with Cons show ?case by simp
qed

text \<open>Every match of the pattern has its three groups.\<close>

lemma match_groups: "match p s = Some (gs, e) \<Longrightarrow> length gs = groups p"
proof (induction p s arbitrary: gs e rule: match.induct)
  case (5 cl r d ds)
  then show ?case
    by (auto split: if_splits option.splits)
next
  case (7 cl r d ds)
  then show ?case
    by (fastforce split: if_splits option.splits list.splits prod.splits)
qed (auto split: if_splits)

lemma findall_groups: "gs \<in> set (findall p s) \<Longrightarrow> length gs = groups p"
proof (induction "length s" arbitrary: s rule: less_induct)
  case less
  note mem = less.prems [unfolded findall.simps [of p s]]
  show ?case
  proof (cases "match p s")
    case None
    with mem obtain c cs where s: "s = c # cs" and "gs \<in> set (findall p cs)"
      by (cases s) auto
    then show ?thesis
      using less.hyps [of cs] by simp
  next
    case (Some m)
    obtain hs e where m: "m = (hs, e)" by (cases m)
    from Some m have l: "length hs = groups p" by (simp add: match_groups)
    show ?thesis
    proof (cases "length e < length s")
      case True
      with mem Some m have "gs = hs \<or> gs \<in> set (findall p e)" by auto
      with l True less.hyps [of e] show ?thesis by auto
    next
      case False
      with mem Some m have "gs = hs \<or> (\<exists>c cs. s = c # cs \<and> gs \<in> set (findall p cs))"
        by (cases s) auto
      then show ?thesis
      proof
        assume "gs = hs"
        with l show ?thesis by simp
      next
        assume "\<exists>c cs. s = c # cs \<and> gs \<in> set (findall p cs)"
        then obtain c cs where "s = c # cs" and "gs \<in> set (findall p cs)" by blast
        then show ?thesis
          using less.hyps [of cs] by simp
      qed
    qed
  qed
qed

lemma pattern_groups: "groups pattern = 3"
  by (simp add: pattern_def lits_def asc_def)

lemma findall_pattern_groups: "gs \<in> set (findall pattern s) \<Longrightarrow> length gs = 3"
  by (simp add: findall_groups pattern_groups)

section \<open>The output of the script\<close>

lemma stdout_print [simp]: "stdout (print s st) = stdout st @ s @ [10]"
  by (simp add: print_def)

lemma translation_data_print [simp]: "translation_data (print s st) = translation_data st"
  by (simp add: print_def)

lemma stdout_prints [simp]: "stdout (prints ls st) = stdout st @ lines_text ls"
  unfolding prints_def lines_text_def
  by (induction ls arbitrary: st) simp_all

lemma translation_data_prints [simp]: "translation_data (prints ls st) = translation_data st"
  unfolding prints_def
  by (induction ls arbitrary: st) simp_all

lemma stdout_body:
  "stdout (body k n d st) = stdout st @ report_block (k, n, d)"
  by (simp add: body_def report_block_def lines_text_def Let_def)

lemma translation_data_body:
  "translation_data (body k n d st) =
     AList.update (description_key k) [] (AList.update (name_key k) [] (translation_data st))"
  by (simp add: body_def Let_def)

lemma stdout_loop: "stdout (loop ms st) = stdout st @ concat (map report_block ms)"
  by (induction ms st rule: loop.induct) (simp_all add: stdout_body)

lemma translation_data_loop:
  "translation_data st = translation_data st' \<Longrightarrow>
     translation_data (loop ms st) = translation_data (loop ms st')"
  by (induction ms st arbitrary: st' rule: loop.induct) (simp_all add: translation_data_body)

lemma translation_data_script:
  "translation_data (script content) = template (findall3 pattern content)"
proof -
  have "translation_data (loop ms (prints ls \<lparr>stdout = [], translation_data = []\<rparr>)) =
      template ms" for ms ls
    unfolding template_def by (rule translation_data_loop) simp
  then show ?thesis
    by (simp add: script_def Let_def)
qed

lemma stdout_script:
  "stdout (script content) =
     lines_text (intro (length (findall3 pattern content))) @
     concat (map report_block (findall3 pattern content)) @
     lines_text outro @
     json_dumps (template (findall3 pattern content)) @ [10]"
proof -
  have "translation_data (loop ms (prints ls \<lparr>stdout = [], translation_data = []\<rparr>)) =
      template ms" for ms ls
    unfolding template_def by (rule translation_data_loop) simp
  then show ?thesis
    by (simp add: script_def Let_def stdout_loop)
qed


lemma files_world_of [simp]: "files (world_of f) input_path = f"
  by (simp add: world_of_def)

lemma utf8_decode_ascii:
  "\<forall>c\<in>set bytes. (of_char c :: nat) < 128 \<Longrightarrow> utf8_decode bytes = Some (asc bytes)"
proof (induction bytes)
  case Nil
  show ?case by (simp add: asc_def)
next
  case (Cons c cs)
  then have lt: "(of_char c :: nat) < 128" and ih: "utf8_decode cs = Some (asc cs)"
    by simp_all
  show ?case
    by (subst utf8_decode.simps) (simp only: Let_def lt if_True ih option.map asc_def list.map)
qed


section \<open>Files made of entries\<close>

lemma match_entry_text:
  assumes "well_formed e"
  shows "match pattern (entry_text e @ s) = Some ([ekey e, ename e, edescription e], s)"
  using assms match_entry_open [of e "44 # s"]
  by (simp add: well_formed_def entry_text_def asc_def)

lemma entry_text_Cons: "\<exists>t. entry_text e = 123 # t"
  by (simp add: entry_text_def entry_open_def asc_def)

lemma file_text_Nil [simp]: "file_text pre [] = pre"
  by (simp add: file_text_def)

lemma file_text_Cons:
  "file_text pre (e # es) = pre @ entry_text e @ trailing e @ file_text [] es"
  by (simp add: file_text_def)


lemma file_text_pre: "file_text pre es = pre @ file_text [] es"
  by (simp add: file_text_def)

lemma file_text_starts: "file_text [] es = [] \<or> hd (file_text [] es) = 123"
proof (cases es)
  case Nil
  then show ?thesis by simp
next
  case (Cons e es')
  from entry_text_Cons obtain t where "entry_text e = 123 # t" by blast
  with Cons show ?thesis by (simp add: file_text_Cons)
qed

lemma findall_entry:
  assumes "well_formed e" and "no_entry_start (trailing e)" and "s = [] \<or> hd s = 123"
  shows "findall pattern (entry_text e @ trailing e @ s) =
           [ekey e, ename e, edescription e] # findall pattern s"
proof -
  have m: "match pattern (entry_text e @ trailing e @ s) =
      Some ([ekey e, ename e, edescription e], trailing e @ s)"
    using assms(1) by (rule match_entry_text)
  from match_pattern_shorter [OF m]
  have "findall pattern (entry_text e @ trailing e @ s) =
      [ekey e, ename e, edescription e] # findall pattern (trailing e @ s)"
    using m by (rule_tac findall_hit) simp_all
  with assms(2,3) show ?thesis by (simp add: findall_gap)
qed

lemma findall_entries:
  assumes "list_all (\<lambda>e. well_formed e \<and> no_entry_start (trailing e)) es"
    and "s = [] \<or> hd s = 123"
  shows "findall pattern (file_text [] es @ s) =
           map (\<lambda>e. [ekey e, ename e, edescription e]) es @ findall pattern s"
  using assms
proof (induction es)
  case Nil
  then show ?case by simp
next
  case (Cons e es)
  have st: "file_text [] es @ s = [] \<or> hd (file_text [] es @ s) = 123"
    using file_text_starts [of es] Cons.prems(2) by (cases "file_text [] es") auto
  from Cons.prems have "well_formed e" "no_entry_start (trailing e)" by simp_all
  from findall_entry [OF this st] Cons show ?case
    by (simp add: file_text_Cons)
qed

lemma findall3_entries:
  assumes "list_all (\<lambda>e. well_formed e \<and> no_entry_start (trailing e)) es"
    and "s = [] \<or> hd s = 123"
  shows "findall3 pattern (file_text [] es @ s) = map extracted es @ findall3 pattern s"
  using findall_entries [OF assms]
  by (simp add: findall3_def extracted_def)

lemma findall3_gap:
  "no_entry_start g \<Longrightarrow> s = [] \<or> hd s = 123 \<Longrightarrow> findall3 pattern (g @ s) = findall3 pattern s"
  by (simp add: findall3_def findall_gap)

lemma findall3_Nil [simp]: "findall3 pattern [] = []"
  by (simp add: findall3_def findall_Nil)

lemma findall3_file:
  assumes "entry_file pre es"
  shows "findall3 pattern (file_text pre es) = map extracted es"
proof -
  from assms have pre: "no_entry_start pre"
    and es: "list_all (\<lambda>e. well_formed e \<and> no_entry_start (trailing e)) es"
    by (simp_all add: entry_file_def)
  have "findall3 pattern (pre @ file_text [] es) = findall3 pattern (file_text [] es)"
    using pre file_text_starts by (rule findall3_gap)
  also have "\<dots> = map extracted es"
    using findall3_entries [OF es, of "[]"] by simp
  finally show ?thesis by (simp add: file_text_pre [symmetric])
qed

section \<open>The template\<close>

lemma name_key_inj [simp]: "name_key k = name_key k' \<longleftrightarrow> k = k'"
  by (simp add: name_key_def)

lemma description_key_inj [simp]: "description_key k = description_key k' \<longleftrightarrow> k = k'"
  by (simp add: description_key_def)

lemma name_key_neq_description_key [simp]: "name_key k \<noteq> description_key k'"
proof
  assume "name_key k = description_key k'"
  then have "last (k @ asc ''.name'') = last (k' @ asc ''.description'')"
    by (simp add: name_key_def description_key_def)
  then show False by (simp add: asc_def)
qed

lemma description_key_neq_name_key [simp]: "description_key k \<noteq> name_key k'"
  using name_key_neq_description_key [of k' k] by metis

lemma loop_snoc: "loop (ms @ [(k, n, d)]) st = body k n d (loop ms st)"
  by (induction ms st rule: loop.induct) simp_all

lemma template_Nil [simp]: "template [] = []"
  by (simp add: template_def)

lemma template_snoc:
  "template (ms @ [(k, n, d)]) =
     AList.update (description_key k) [] (AList.update (name_key k) [] (template ms))"
  by (simp add: template_def loop_snoc translation_data_body)

lemma first_occurrences_Nil [simp]: "first_occurrences [] = []"
  by (simp add: first_occurrences_def)

lemma first_occurrences_snoc:
  "first_occurrences (xs @ [x]) =
     (if x \<in> set xs then first_occurrences xs else first_occurrences xs @ [x])"
  by (simp add: first_occurrences_def)

lemma set_first_occurrences [simp]: "set (first_occurrences xs) = set xs"
  by (simp add: first_occurrences_def)

lemma first_occurrences_distinct: "distinct xs \<Longrightarrow> first_occurrences xs = xs"
  by (simp add: first_occurrences_def distinct_remdups_id)

lemma length_first_occurrences: "length (first_occurrences xs) = card (set xs)"
  by (simp add: first_occurrences_def length_remdups_card_conv)

lemma name_key_in_pairs [simp]:
  "name_key k \<in> set (concat (map key_pair ks)) \<longleftrightarrow> k \<in> set ks"
  by (induction ks) (auto simp: key_pair_def)

lemma description_key_in_pairs [simp]:
  "description_key k \<in> set (concat (map key_pair ks)) \<longleftrightarrow> k \<in> set ks"
  by (induction ks) (auto simp: key_pair_def)

lemma length_pairs: "length (concat (map key_pair ks)) = 2 * length ks"
  by (induction ks) (simp_all add: key_pair_def)

lemma keys_template:
  "map fst (template ms) = concat (map key_pair (first_occurrences (identifiers ms)))"
proof (induction ms rule: rev_induct)
  case Nil
  show ?case by (simp add: identifiers_def)
next
  case (snoc m ms)
  obtain k n d where m: "m = (k, n, d)" by (cases m)
  let ?K = "first_occurrences (identifiers ms)"
  have ids: "identifiers (ms @ [m]) = identifiers ms @ [k]"
    by (simp add: identifiers_def m)
  have keys: "map fst (template (ms @ [m])) =
      (if k \<in> set (identifiers ms) then concat (map key_pair ?K)
       else concat (map key_pair ?K) @ [name_key k, description_key k])"
    by (simp add: m template_snoc update_keys snoc del: set_concat)
  have "concat (map key_pair (?K @ [k])) =
      concat (map key_pair ?K) @ [name_key k, description_key k]"
    by (simp add: key_pair_def)
  then show ?case
    unfolding keys ids first_occurrences_snoc by simp
qed

lemma distinct_keys_template: "distinct (map fst (template ms))"
proof (induction ms rule: rev_induct)
  case Nil
  show ?case by simp
next
  case (snoc m ms)
  obtain k n d where m: "m = (k, n, d)" by (cases m)
  from snoc show ?case
    by (simp add: m template_snoc distinct_update)
qed

lemma set_update_subset: "set (AList.update k v al) \<subseteq> insert (k, v) (set al)"
  by (induction al) auto

lemma values_template: "(x, v) \<in> set (template ms) \<Longrightarrow> v = []"
proof (induction ms arbitrary: x v rule: rev_induct)
  case Nil
  then show ?case by simp
next
  case (snoc m ms)
  obtain k n d where m: "m = (k, n, d)" by (cases m)
  from snoc.prems have "(x, v) \<in> insert (description_key k, [])
      (insert (name_key k, []) (set (template ms)))"
    using set_update_subset [of "description_key k" "[]"
        "AList.update (name_key k) [] (template ms)"]
      set_update_subset [of "name_key k" "[]" "template ms"]
    by (auto simp: m template_snoc)
  with snoc.IH show ?case by auto
qed

lemma length_template: "length (template ms) = 2 * card (set (identifiers ms))"
proof -
  have "length (template ms) = length (map fst (template ms))" by simp
  also have "\<dots> = 2 * card (set (identifiers ms))"
    by (simp only: keys_template length_pairs length_first_occurrences)
  finally show ?thesis .
qed

lemma map_of_template:
  assumes "k \<in> set (identifiers ms)"
  shows "map_of (template ms) (name_key k) = Some [] \<and>
         map_of (template ms) (description_key k) = Some []"
proof -
  have "name_key k \<in> set (map fst (template ms))"
    and "description_key k \<in> set (map fst (template ms))"
    using assms by (simp_all only: keys_template name_key_in_pairs description_key_in_pairs
        set_first_occurrences)
  then obtain v v' where "(name_key k, v) \<in> set (template ms)"
    and "(description_key k, v') \<in> set (template ms)"
    by auto
  moreover from this have "v = []" "v' = []"
    using values_template by blast+
  ultimately show ?thesis
    using distinct_keys_template [of ms] by simp
qed

lemma stdout_script_count:
  "prefix (count_line (length (findall3 pattern content))) (stdout (script content))"
  by (simp add: stdout_script intro_def lines_text_def)


lemma entry_file_simple:
  "entry_file pre (map (\<lambda>(k, n, d). entry k n d) ms) \<longleftrightarrow>
     no_entry_start pre \<and> (\<forall>(k, n, d)\<in>set ms. k \<noteq> [] \<and> quote_free k \<and> n \<noteq> [] \<and> quote_free n \<and>
        d \<noteq> [] \<and> quote_free d)"
  by (auto simp add: entry_file_def list_all_iff well_formed_def spaced_def entry_def asc_def
      is_space_def opens_entry_def)

section \<open>Entries the pattern does not match\<close>




lemma field_empty: "match (Group (AnyBut 39) # r) (39 # s) = None"
  by simp








lemma spaced_entry [simp]: "spaced (entry k n d)"
  by (simp add: spaced_def entry_def asc_def is_space_def)

lemma spaced_trailing [simp]: "spaced (e\<lparr>trailing := g\<rparr>) = spaced e"
  by (simp add: spaced_def)

section \<open>Loading, determinism and the empty result\<close>







section \<open>Extraction from a file of entries\<close>

text \<open>
  C1, as amended. For a file of \<open>K\<close> well-formed entries, each field non-empty and free of
  single quotes, with no entry opening in the text between them, the pattern yields exactly
  the \<open>K\<close> entries in order, the count line reports \<open>K\<close>, and the keys of the template are
  exactly \<open>clangFormat.option.<key>.name\<close> and \<open>clangFormat.option.<key>.description\<close> for the
  extracted entries. Their number is twice the number of distinct identifiers: \<open>2K\<close> when the
  identifiers are pairwise distinct.
\<close>

theorem entries_are_extracted:
  assumes "entry_file pre es"
  shows "findall3 pattern (file_text pre es) = map extracted es \<and>
         length (findall3 pattern (file_text pre es)) = length es \<and>
         prefix (count_line (length es)) (stdout (script (file_text pre es))) \<and>
         set (map fst (translation_data (script (file_text pre es)))) =
           (\<Union>e\<in>set es. {name_key (ekey e), description_key (ekey e)}) \<and>
         length (translation_data (script (file_text pre es))) = 2 * card (ekey ` set es) \<and>
         (distinct (map ekey es) \<longrightarrow>
            length (translation_data (script (file_text pre es))) = 2 * length es)"
proof -
  let ?F = "file_text pre es"
  have f: "findall3 pattern ?F = map extracted es"
    using assms by (rule findall3_file)
  have ids: "identifiers (map extracted es) = map ekey es"
    by (simp add: identifiers_def extracted_def)
  have n: "length (findall3 pattern ?F) = length es"
    by (simp add: f)
  have c: "prefix (count_line (length es)) (stdout (script ?F))"
    using stdout_script_count [of ?F] by (simp only: n)
  have td: "translation_data (script ?F) = template (map extracted es)"
    by (simp add: translation_data_script f)
  have k: "set (map fst (translation_data (script ?F))) =
      (\<Union>e\<in>set es. {name_key (ekey e), description_key (ekey e)})"
    unfolding td keys_template ids
    by (auto simp: key_pair_def)
  have l: "length (translation_data (script ?F)) = 2 * card (ekey ` set es)"
    by (simp add: td length_template ids)
  have "distinct (map ekey es) \<Longrightarrow> card (ekey ` set es) = length es"
    using distinct_card [of "map ekey es"] by simp
  with f n c k l show ?thesis by simp
qed

theorem entries_are_extracted_witness:
  "entry_file [] [entry (asc ''Alpha'') [21517, 31216, 65] [25551, 36848, 65]] \<and>
   findall3 pattern
     (file_text [] [entry (asc ''Alpha'') [21517, 31216, 65] [25551, 36848, 65]]) =
     [(asc ''Alpha'', [21517, 31216, 65], [25551, 36848, 65])] \<and>
   prefix (count_line 1)
     (stdout (script
       (file_text [] [entry (asc ''Alpha'') [21517, 31216, 65] [25551, 36848, 65]]))) \<and>
   set (map fst (translation_data (script
       (file_text [] [entry (asc ''Alpha'') [21517, 31216, 65] [25551, 36848, 65]])))) =
     {asc ''clangFormat.option.Alpha.name'', asc ''clangFormat.option.Alpha.description''} \<and>
   length (translation_data (script
       (file_text [] [entry (asc ''Alpha'') [21517, 31216, 65] [25551, 36848, 65]]))) = 2"
proof -
  have e: "entry_file [] [entry (asc ''Alpha'') [21517, 31216, 65] [25551, 36848, 65]]"
    using entry_file_simple [of "[]" "[(asc ''Alpha'', [21517, 31216, 65], [25551, 36848, 65])]"]
    by (simp add: quote_free_def asc_def)
  show ?thesis
    using e entries_are_extracted [OF e]
    by (simp add: extracted_def entry_def name_key_def description_key_def asc_def)
qed

text \<open>
  C1 as stated fails where two entries share an identifier: two well-formed entries with the
  identifier \<open>a\<close> give two matches and a template of two keys, not four.
\<close>

theorem two_entries_one_identifier:
  "entry_file [] [entry (asc ''a'') (asc ''b'') (asc ''c''), entry (asc ''a'') (asc ''d'') (asc ''e'')] \<and>
   length (findall3 pattern (file_text []
     [entry (asc ''a'') (asc ''b'') (asc ''c''), entry (asc ''a'') (asc ''d'') (asc ''e'')])) = 2 \<and>
   length (translation_data (script (file_text []
     [entry (asc ''a'') (asc ''b'') (asc ''c''), entry (asc ''a'') (asc ''d'') (asc ''e'')]))) = 2"
proof -
  let ?es = "[entry (asc ''a'') (asc ''b'') (asc ''c''), entry (asc ''a'') (asc ''d'') (asc ''e'')]"
  have e: "entry_file [] ?es"
    using entry_file_simple [of "[]" "[(asc ''a'', asc ''b'', asc ''c''), (asc ''a'', asc ''d'', asc ''e'')]"]
    by (simp add: quote_free_def asc_def)
  have f: "findall3 pattern (file_text [] ?es) = map extracted ?es"
    using e by (rule findall3_file)
  have "length (translation_data (script (file_text [] ?es))) =
      2 * card (set (identifiers (map extracted ?es)))"
    by (simp only: translation_data_script f length_template)
  also have "\<dots> = 2"
    by (simp add: identifiers_def extracted_def entry_def)
  finally show ?thesis using e f by simp
qed

section \<open>The order of the keys\<close>

text \<open>
  C2, as amended. The keys of the template stand in the order in which their identifiers
  first occur among the matches, the name key of an identifier right before its description
  key. When the identifiers are pairwise distinct this is the order of the matches, and for
  a file of well-formed entries the order of the entries in the file.
\<close>

theorem template_key_order:
  "map fst (translation_data (script content)) =
     concat (map key_pair (first_occurrences (identifiers (findall3 pattern content)))) \<and>
   (distinct (identifiers (findall3 pattern content)) \<longrightarrow>
      map fst (translation_data (script content)) =
        concat (map key_pair (identifiers (findall3 pattern content)))) \<and>
   (entry_file pre es \<and> distinct (map ekey es) \<longrightarrow>
      map fst (translation_data (script (file_text pre es))) =
        concat (map (\<lambda>e. [name_key (ekey e), description_key (ekey e)]) es))"
proof -
  have a: "map fst (translation_data (script c)) =
      concat (map key_pair (first_occurrences (identifiers (findall3 pattern c))))" for c
    by (simp only: translation_data_script keys_template)
  have b: "map fst (translation_data (script (file_text pre es))) =
      concat (map (\<lambda>e. [name_key (ekey e), description_key (ekey e)]) es)"
    if "entry_file pre es" and "distinct (map ekey es)"
  proof -
    have "identifiers (findall3 pattern (file_text pre es)) = map ekey es"
      using that(1) by (simp add: findall3_file identifiers_def extracted_def)
    then show ?thesis
      using that(2) by (simp add: a first_occurrences_distinct key_pair_def comp_def)
  qed
  from a b show ?thesis
    by (simp add: first_occurrences_distinct)
qed

theorem template_key_order_witness:
  "distinct (identifiers (findall3 pattern (file_text []
      [entry (asc ''a'') (asc ''n'') (asc ''d''), entry (asc ''b'') (asc ''n'') (asc ''d'')]))) \<and>
   map fst (translation_data (script (file_text []
      [entry (asc ''a'') (asc ''n'') (asc ''d''), entry (asc ''b'') (asc ''n'') (asc ''d'')]))) =
     [name_key (asc ''a''), description_key (asc ''a''),
      name_key (asc ''b''), description_key (asc ''b'')]"
proof -
  let ?es = "[entry (asc ''a'') (asc ''n'') (asc ''d''), entry (asc ''b'') (asc ''n'') (asc ''d'')]"
  have e: "entry_file [] ?es"
    using entry_file_simple [of "[]" "[(asc ''a'', asc ''n'', asc ''d''), (asc ''b'', asc ''n'', asc ''d'')]"]
    by (simp add: quote_free_def asc_def)
  have f: "findall3 pattern (file_text [] ?es) = map extracted ?es"
    using e by (rule findall3_file)
  have i: "identifiers (findall3 pattern (file_text [] ?es)) = [asc ''a'', asc ''b'']"
    unfolding f by (simp add: identifiers_def extracted_def entry_def)
  have d: "distinct [asc ''a'', asc ''b'']"
    by (simp add: asc_def)
  have "map fst (translation_data (script (file_text [] ?es))) =
      concat (map key_pair [asc ''a'', asc ''b''])"
    using template_key_order [of "file_text [] ?es" "[]" ?es] d
    unfolding i by blast
  with d show ?thesis
    unfolding i by (simp add: key_pair_def)
qed

text \<open>
  C2 as stated fails where an identifier recurs: for the entries \<open>a\<close>, \<open>b\<close>, \<open>a\<close> the keys of
  the third entry stand before the keys of the second.
\<close>

theorem later_entry_keys_come_first:
  "findall3 pattern (file_text []
      [entry (asc ''a'') (asc ''n'') (asc ''d''), entry (asc ''b'') (asc ''n'') (asc ''d''),
       entry (asc ''a'') (asc ''m'') (asc ''e'')]) =
     [(asc ''a'', asc ''n'', asc ''d''), (asc ''b'', asc ''n'', asc ''d''),
      (asc ''a'', asc ''m'', asc ''e'')] \<and>
   map fst (translation_data (script (file_text []
      [entry (asc ''a'') (asc ''n'') (asc ''d''), entry (asc ''b'') (asc ''n'') (asc ''d''),
       entry (asc ''a'') (asc ''m'') (asc ''e'')]))) =
     [name_key (asc ''a''), description_key (asc ''a''),
      name_key (asc ''b''), description_key (asc ''b'')]"
proof -
  let ?es = "[entry (asc ''a'') (asc ''n'') (asc ''d''), entry (asc ''b'') (asc ''n'') (asc ''d''),
       entry (asc ''a'') (asc ''m'') (asc ''e'')]"
  have e: "entry_file [] ?es"
    using entry_file_simple [of "[]" "[(asc ''a'', asc ''n'', asc ''d''),
      (asc ''b'', asc ''n'', asc ''d''), (asc ''a'', asc ''m'', asc ''e'')]"]
    by (simp add: quote_free_def asc_def)
  have f: "findall3 pattern (file_text [] ?es) = map extracted ?es"
    using e by (rule findall3_file)
  have fo: "first_occurrences [asc ''a'', asc ''b'', asc ''a''] = [asc ''a'', asc ''b'']"
    by (simp add: first_occurrences_def asc_def)
  have "map fst (translation_data (script (file_text [] ?es))) =
      concat (map key_pair (first_occurrences (identifiers (map extracted ?es))))"
    by (simp only: translation_data_script f keys_template)
  also have "\<dots> = [name_key (asc ''a''), description_key (asc ''a''),
      name_key (asc ''b''), description_key (asc ''b'')]"
    by (simp add: identifiers_def extracted_def entry_def fo key_pair_def)
  moreover have "findall3 pattern (file_text [] ?es) =
     [(asc ''a'', asc ''n'', asc ''d''), (asc ''b'', asc ''n'', asc ''d''),
      (asc ''a'', asc ''m'', asc ''e'')]"
    unfolding f by (simp add: extracted_def entry_def)
  ultimately show ?thesis by simp
qed

section \<open>The template is flat\<close>



section \<open>Entries that share an identifier\<close>

text \<open>
  C7. The template holds every key once; an identifier that occurs among the matches has
  one name key and one description key, both mapped to \<open>""\<close>, so the number of keys is twice
  the number of distinct identifiers, and less than twice the number of matches as soon as
  two matches share an identifier. A later match assigns to the dictionary the earlier ones
  have built: where its identifier has occurred, the assignment keeps the keys and
  replaces the values.
\<close>

theorem duplicates_overwrite:
  "distinct (map fst (translation_data (script content))) \<and>
   length (translation_data (script content)) =
     2 * card (set (identifiers (findall3 pattern content))) \<and>
   (\<forall>k\<in>set (identifiers (findall3 pattern content)).
      map_of (translation_data (script content)) (name_key k) = Some [] \<and>
      map_of (translation_data (script content)) (description_key k) = Some []) \<and>
   (\<not> distinct (identifiers (findall3 pattern content)) \<longrightarrow>
      length (translation_data (script content)) < 2 * length (findall3 pattern content)) \<and>
   (\<forall>ms k n d.
      template (ms @ [(k, n, d)]) =
        AList.update (description_key k) [] (AList.update (name_key k) [] (template ms)) \<and>
      (k \<in> set (identifiers ms) \<longrightarrow>
         map fst (template (ms @ [(k, n, d)])) = map fst (template ms)))"
proof -
  let ?ms = "findall3 pattern content"
  have c: "card (set (identifiers ?ms)) < length ?ms" if nd: "\<not> distinct (identifiers ?ms)"
  proof -
    have le: "card (set (identifiers ?ms)) \<le> length (identifiers ?ms)"
      by (rule card_length)
    have "card (set (identifiers ?ms)) \<noteq> length (identifiers ?ms)"
      using nd card_distinct by blast
    with le have "card (set (identifiers ?ms)) < length (identifiers ?ms)" by simp
    then show ?thesis by (simp add: identifiers_def)
  qed
  have s: "map fst (template (ms @ [(k, n, d)])) = map fst (template ms)"
    if "k \<in> set (identifiers ms)" for ms k n d
    using that
    by (simp only: keys_template)
      (simp add: identifiers_def first_occurrences_snoc)
  show ?thesis
    using c s
    by (simp add: translation_data_script distinct_keys_template length_template
        map_of_template template_snoc)
qed

theorem duplicates_overwrite_witness:
  "\<not> distinct (identifiers (findall3 pattern (file_text []
      [entry (asc ''a'') (asc ''b'') (asc ''c''), entry (asc ''a'') (asc ''d'') (asc ''e'')]))) \<and>
   length (findall3 pattern (file_text []
      [entry (asc ''a'') (asc ''b'') (asc ''c''), entry (asc ''a'') (asc ''d'') (asc ''e'')])) = 2 \<and>
   length (translation_data (script (file_text []
      [entry (asc ''a'') (asc ''b'') (asc ''c''), entry (asc ''a'') (asc ''d'') (asc ''e'')]))) = 2 \<and>
   map_of (translation_data (script (file_text []
      [entry (asc ''a'') (asc ''b'') (asc ''c''), entry (asc ''a'') (asc ''d'') (asc ''e'')])))
     (name_key (asc ''a'')) = Some []"
proof -
  let ?es = "[entry (asc ''a'') (asc ''b'') (asc ''c''), entry (asc ''a'') (asc ''d'') (asc ''e'')]"
  have e: "entry_file [] ?es"
    using entry_file_simple [of "[]" "[(asc ''a'', asc ''b'', asc ''c''), (asc ''a'', asc ''d'', asc ''e'')]"]
    by (simp add: quote_free_def asc_def)
  have f: "findall3 pattern (file_text [] ?es) = map extracted ?es"
    using e by (rule findall3_file)
  have i: "identifiers (map extracted ?es) = [asc ''a'', asc ''a'']"
    by (simp add: identifiers_def extracted_def entry_def)
  have d: "\<not> distinct [asc ''a'', asc ''a'']" and c: "card (set [asc ''a'', asc ''a'']) = 1"
    by simp_all
  show ?thesis
    using duplicates_overwrite [of "file_text [] ?es"] d
    unfolding f i c by simp
qed

section \<open>Entries that are left out\<close>








end
